theory Spec2Isabelle
  imports Main
begin

section \<open>The polling channel \<open>HTTPSSocket\<close> of \<open>app/src/recoil/selectors.ts\<close>\<close>

text \<open>
  The class emulates a persistent socket over HTTP polling. Its methods only start
  requests and install callbacks; everything observable happens when a timer fires or a
  request completes. The model therefore has two layers:
  \<^item> the methods of the class (\<open>connect\<close>, \<open>execute\<close>, \<open>gather\<close>, \<open>addEventListener\<close>,
    \<open>removeEventListener\<close>, \<open>send\<close>) and the three promise chains they install, as
    functions on an explicit state;
  \<^item> the JavaScript runtime they talk to: the table of live interval timers, the requests
    issued and still in flight, the log of handler invocations and the log of promise
    rejections that no handler observed.
  A promise chain is run as one step at the moment its request completes: the callbacks
  read the fields of the object only then. Handlers are opaque callbacks identified by
  reference; invoking one is recorded in the call log, and a handler is taken to return
  normally without calling back into the channel.
\<close>

subsection \<open>Values\<close>

text \<open>\<open>WebSocket.CONNECTING\<close>, \<open>WebSocket.OPEN\<close> and \<open>WebSocket.CLOSED\<close>: the three values the
  class ever stores in \<open>readyState\<close>.\<close>

datatype ready_state = CONNECTING | OPEN | CLOSED

text \<open>A parsed JSON value. An object is the list of its members, looked up by key.\<close>

datatype json =
    JNull
  | JBool bool
  | JNum int
  | JStr string
  | JArr "json list"
  | JObj "(string \<times> json) list"

text \<open>A JavaScript string: either given by the caller or the result of
  \<open>JSON.stringify\<close> on a value.\<close>

datatype js_text = Raw string | JSON_stringify json

text \<open>What a handler is called with: \<open>null\<close>, or the object \<open>{ data: ... }\<close>.\<close>

datatype arg = Null | MessageEvent (data: js_text)

type_synonym handler = nat

datatype call = Call (kind: string) (target: handler) (argument: arg)

datatype exn = TypeError | SyntaxError

text \<open>The outcome of a request as \<open>fetch\<close> and \<open>response.json()\<close> see it. \<open>fetch\<close> rejects
  only when no response arrives; a response of any status resolves it. \<open>response.json()\<close>
  rejects when the body is not JSON text.\<close>

datatype body = Invalid | Json json

datatype response = NetworkError | Response (status: nat) (payload: body)

text \<open>The promise chain attached to a request, named after the method that attaches it.\<close>

datatype continuation = Gather | Relay | Push

datatype request = Request (verb: string) (url: string) (content: "js_text option")
  (cont: continuation)

subsection \<open>State\<close>

text \<open>The first six fields are the fields of the class (\<open>interval\<close> is \<open>undefined\<close> until
  \<open>connect\<close> assigns it). The others are the runtime: live interval timers as pairs of
  identifier and delay, the next timer identifier, the requests issued so far (a request
  is identified by its position), the requests in flight, the handler invocations and the
  unhandled promise rejections.\<close>

record world =
  location :: string
  events :: "string \<rightharpoonup> handler list"
  readyState :: ready_state
  openTimeout :: nat
  timeout :: nat
  interval :: "nat option"
  timers :: "(nat \<times> nat) list"
  next_timer :: nat
  requests :: "request list"
  pending :: "nat \<rightharpoonup> continuation"
  calls :: "call list"
  unhandled :: "exn list"

subsection \<open>Runtime primitives\<close>

definition setInterval :: "nat \<Rightarrow> world \<Rightarrow> nat \<times> world" where
  "setInterval delay w =
     (next_timer w,
      w\<lparr>timers := timers w @ [(next_timer w, delay)], next_timer := Suc (next_timer w)\<rparr>)"

fun clearInterval :: "nat option \<Rightarrow> world \<Rightarrow> world" where
  "clearInterval None w = w"
| "clearInterval (Some t) w = w\<lparr>timers := filter (\<lambda>p. fst p \<noteq> t) (timers w)\<rparr>"

definition fetch :: "string \<Rightarrow> string \<Rightarrow> js_text option \<Rightarrow> continuation \<Rightarrow> world \<Rightarrow> world" where
  "fetch u v b k w =
     w\<lparr>requests := requests w @ [Request v u b k],
       pending := (pending w)(length (requests w) \<mapsto> k)\<rparr>"

text \<open>\<open>hs.forEach((h) => h(a))\<close> on a \<open>Set\<close>, kept as the list of its members in insertion
  order.\<close>

definition forEach :: "string \<Rightarrow> handler list \<Rightarrow> arg \<Rightarrow> world \<Rightarrow> world" where
  "forEach k hs a w = w\<lparr>calls := calls w @ map (\<lambda>h. Call k h a) hs\<rparr>"

text \<open>\<open>Set.add\<close> and \<open>Set.delete\<close>.\<close>

definition set_add :: "handler \<Rightarrow> handler list \<Rightarrow> handler list" where
  "set_add h hs = (if h \<in> set hs then hs else hs @ [h])"

definition set_delete :: "handler \<Rightarrow> handler list \<Rightarrow> handler list" where
  "set_delete h hs = removeAll h hs"

text \<open>Reading a property of a parsed value: a \<open>TypeError\<close> on \<open>null\<close>, \<open>undefined\<close>
  (\<open>None\<close>) when the value has no such member.\<close>

fun property :: "json \<Rightarrow> string \<Rightarrow> exn + json option" where
  "property JNull k = Inl TypeError"
| "property (JObj ms) k = Inr (map_of ms k)"
| "property _ k = Inr None"

fun truthy :: "json option \<Rightarrow> bool" where
  "truthy None = False"
| "truthy (Some JNull) = False"
| "truthy (Some (JBool b)) = b"
| "truthy (Some (JNum n)) = (n \<noteq> 0)"
| "truthy (Some (JStr s)) = (s \<noteq> [])"
| "truthy (Some (JArr xs)) = True"
| "truthy (Some (JObj ms)) = True"

text \<open>\<open>fetch(...).then((response) => response.json())\<close>: the value the next callback
  receives, or the rejection.\<close>

fun json_of :: "response \<Rightarrow> exn + json" where
  "json_of NetworkError = Inl TypeError"
| "json_of (Response s Invalid) = Inl SyntaxError"
| "json_of (Response s (Json d)) = Inr d"

definition reject :: "exn \<Rightarrow> world \<Rightarrow> world" where
  "reject e w = w\<lparr>unhandled := unhandled w @ [e]\<rparr>"

subsection \<open>The methods of the class\<close>

definition gather :: "world \<Rightarrow> world" where
  "gather w = fetch (location w) ''get'' None Gather w"

definition connect :: "world \<Rightarrow> world" where
  "connect w =
     (let w1 = gather w;
          (t, w2) = setInterval (timeout w1) w1
      in w2\<lparr>interval := Some t\<rparr>)"

definition new_HTTPSSocket :: "string \<Rightarrow> world" where
  "new_HTTPSSocket loc =
     connect \<lparr>location = loc, events = Map.empty, readyState = CONNECTING,
              openTimeout = 2000, timeout = 2000, interval = None,
              timers = [], next_timer = 0, requests = [], pending = Map.empty,
              calls = [], unhandled = []\<rparr>"

text \<open>The body of \<open>messages.forEach\<close> in \<open>execute\<close>: one request per message.\<close>

definition relay :: "json \<Rightarrow> world \<Rightarrow> world" where
  "relay m w = fetch (location w @ ''&mode=pull'') ''post'' (Some (JSON_stringify m)) Relay w"

text \<open>The first statement of \<open>execute\<close>. \<open>this.events.open.forEach\<close> throws when the table
  has no entry \<open>open\<close>, before anything is assigned.\<close>

definition execute_open :: "world \<Rightarrow> exn + world" where
  "execute_open w =
     (if readyState w \<in> {CLOSED, CONNECTING} then
        (case events w ''open'' of
           None \<Rightarrow> Inl TypeError
         | Some hs \<Rightarrow>
             (let w1 = forEach ''open'' hs Null w;
                  w2 = w1\<lparr>timeout := openTimeout w1\<rparr>;
                  w3 = clearInterval (interval w2) w2;
                  (t, w4) = setInterval (timeout w3) w3
              in Inr (w4\<lparr>interval := Some t\<rparr>)))
      else Inr w)"

text \<open>\<open>execute(messages)\<close>: the exception thrown, if any, and the state it leaves.
  \<open>messages.forEach\<close> exists only when \<open>messages\<close> is an array.\<close>

definition execute :: "json option \<Rightarrow> world \<Rightarrow> exn option \<times> world" where
  "execute messages w =
     (case execute_open w of
        Inl e \<Rightarrow> (Some e, w)
      | Inr w1 \<Rightarrow>
          (let w2 = w1\<lparr>readyState := OPEN\<rparr>
           in case messages of
                Some (JArr ms) \<Rightarrow> (None, fold relay ms w2)
              | _ \<Rightarrow> (Some TypeError, w2)))"

text \<open>\<open>this.events.message.forEach((h) => h({ data: JSON.stringify(data) }))\<close>.\<close>

definition deliver :: "json \<Rightarrow> world \<Rightarrow> exn option \<times> world" where
  "deliver d w =
     (case events w ''message'' of
        None \<Rightarrow> (Some TypeError, w)
      | Some hs \<Rightarrow> (None, forEach ''message'' hs (MessageEvent (JSON_stringify d)) w))"

text \<open>The \<open>.catch\<close> callback of \<open>gather\<close>.\<close>

definition gather_catch :: "world \<Rightarrow> world" where
  "gather_catch w =
     (let w1 = (if readyState w = OPEN then
                  (case events w ''close'' of
                     Some hs \<Rightarrow> forEach ''close'' hs Null w
                   | None \<Rightarrow> w)
                else w);
          w2 = w1\<lparr>readyState := CLOSED\<rparr>;
          w3 = clearInterval (interval w2) w2;
          w4 = w3\<lparr>timeout := min (timeout w3 * 2) 5000\<rparr>;
          (t, w5) = setInterval (timeout w4) w4
      in w5\<lparr>interval := Some t\<rparr>)"

text \<open>The chain of \<open>gather\<close>:
  \<open>.then((response) => response.json()).then(({ messages }) => this.execute(messages)).catch(...)\<close>.\<close>

definition gather_then :: "response \<Rightarrow> world \<Rightarrow> world" where
  "gather_then r w =
     (case json_of r of
        Inl e \<Rightarrow> gather_catch w
      | Inr d \<Rightarrow>
          (case property d ''messages'' of
             Inl e \<Rightarrow> gather_catch w
           | Inr messages \<Rightarrow>
               (case execute messages w of
                  (None, w1) \<Rightarrow> w1
                | (Some e, w1) \<Rightarrow> gather_catch w1)))"

text \<open>The chain of a request issued by \<open>execute\<close>; it has no \<open>.catch\<close>.\<close>

definition relay_then :: "response \<Rightarrow> world \<Rightarrow> world" where
  "relay_then r w =
     (case json_of r of
        Inl e \<Rightarrow> reject e w
      | Inr d \<Rightarrow>
          (case deliver d w of
             (None, w1) \<Rightarrow> w1
           | (Some e, w1) \<Rightarrow> reject e w1))"

definition addEventListener :: "string \<Rightarrow> handler \<Rightarrow> world \<Rightarrow> world" where
  "addEventListener eventType h w =
     (let w1 = (if events w eventType = None then w\<lparr>events := (events w)(eventType \<mapsto> [])\<rparr>
                else w)
      in case events w1 eventType of
           Some hs \<Rightarrow> w1\<lparr>events := (events w1)(eventType \<mapsto> set_add h hs)\<rparr>
         | None \<Rightarrow> w1)"

text \<open>\<open>this.events[eventType].delete(handler)\<close>: the exception thrown to the caller, if
  any, and the state.\<close>

definition removeEventListener :: "string \<Rightarrow> handler \<Rightarrow> world \<Rightarrow> exn option \<times> world" where
  "removeEventListener eventType h w =
     (case events w eventType of
        None \<Rightarrow> (Some TypeError, w)
      | Some hs \<Rightarrow> (None, w\<lparr>events := (events w)(eventType \<mapsto> set_delete h hs)\<rparr>))"

definition send :: "string \<Rightarrow> world \<Rightarrow> world" where
  "send message w = fetch (location w @ ''&mode=push'') ''post'' (Some (Raw message)) Push w"

text \<open>The chain of \<open>send\<close>; it has no \<open>.catch\<close>. The destructuring reads both properties
  before either is used.\<close>

definition push_then :: "response \<Rightarrow> world \<Rightarrow> world" where
  "push_then r w =
     (case json_of r of
        Inl e \<Rightarrow> reject e w
      | Inr d \<Rightarrow>
          (case (property d ''messages'', property d ''type'') of
             (Inr messages, Inr type_field) \<Rightarrow>
               (case (if truthy messages then execute messages w else (None, w)) of
                  (Some e, w1) \<Rightarrow> reject e w1
                | (None, w1) \<Rightarrow>
                    (if truthy type_field then
                       (case deliver d w1 of
                          (None, w2) \<Rightarrow> w2
                        | (Some e, w2) \<Rightarrow> reject e w2)
                     else w1))
           | _ \<Rightarrow> reject TypeError w))"

subsection \<open>The event loop\<close>

text \<open>A request completes: it leaves the requests in flight and its chain runs. A
  completion for a request that is not in flight does not happen.\<close>

definition respond :: "nat \<Rightarrow> response \<Rightarrow> world \<Rightarrow> world" where
  "respond i r w =
     (case pending w i of
        None \<Rightarrow> w
      | Some k \<Rightarrow>
          (let w1 = w\<lparr>pending := (pending w)(i := None)\<rparr>
           in case k of
                Gather \<Rightarrow> gather_then r w1
              | Relay \<Rightarrow> relay_then r w1
              | Push \<Rightarrow> push_then r w1))"

text \<open>What can happen to a channel: a live timer fires (every timer the class arms calls
  \<open>gather\<close>), a request completes, or the caller calls \<open>send\<close>, \<open>addEventListener\<close> or
  \<open>removeEventListener\<close>, the methods the application uses on the socket. \<open>connect\<close>,
  \<open>gather\<close> and \<open>execute\<close> are called by the class only. An exception thrown to the caller
  stays with the caller.\<close>

datatype action =
    Tick
  | Respond nat response
  | Send string
  | AddEventListener string handler
  | RemoveEventListener string handler

fun step :: "world \<Rightarrow> action \<Rightarrow> world" where
  "step w Tick = (if timers w = [] then w else gather w)"
| "step w (Respond i r) = respond i r w"
| "step w (Send m) = send m w"
| "step w (AddEventListener k h) = addEventListener k h w"
| "step w (RemoveEventListener k h) = snd (removeEventListener k h w)"

definition run :: "world \<Rightarrow> action list \<Rightarrow> world" where
  "run w as = foldl step w as"

inductive reachable :: "world \<Rightarrow> bool" where
  reach_init: "reachable (new_HTTPSSocket loc)"
| reach_step: "reachable w \<Longrightarrow> reachable (step w a)"

text \<open>One poll cycle: the timer fires, \<open>gather\<close> issues the request, and the request
  completes with \<open>r\<close>.\<close>

definition poll :: "response \<Rightarrow> world \<Rightarrow> world" where
  "poll r w = respond (length (requests w)) r (gather w)"

definition polls :: "response list \<Rightarrow> world \<Rightarrow> world" where
  "polls rs w = fold poll rs w"

text \<open>The state in which the chain of a poll runs: the request is issued and no
  longer in flight.\<close>

definition issued :: "world \<Rightarrow> world" where
  "issued w = w\<lparr>requests := requests w @ [Request ''get'' (location w) None Gather],
                pending := (pending w)(length (requests w) := None)\<rparr>"

text \<open>The two kinds of poll the specification speaks of. A poll is rejected when the
  chain fails before \<open>execute\<close> is entered: no response, a body that is not JSON, or the
  body \<open>null\<close>. A poll carries a batch when the parsed body has an array under
  \<open>messages\<close>.\<close>

fun rejected :: "response \<Rightarrow> bool" where
  "rejected NetworkError = True"
| "rejected (Response s Invalid) = True"
| "rejected (Response s (Json d)) = (d = JNull)"

fun batch :: "response \<Rightarrow> json list option" where
  "batch (Response s (Json (JObj ms))) =
     (case map_of ms ''messages'' of Some (JArr xs) \<Rightarrow> Some xs | _ \<Rightarrow> None)"
| "batch _ = None"

text \<open>The handlers registered under a kind; none when the table has no entry.\<close>

definition handlers :: "world \<Rightarrow> string \<Rightarrow> handler list" where
  "handlers w k = (case events w k of None \<Rightarrow> [] | Some hs \<Rightarrow> hs)"

text \<open>The invocations added between two states of one run.\<close>

definition new_calls :: "world \<Rightarrow> world \<Rightarrow> call list" where
  "new_calls w w' = drop (length (calls w)) (calls w')"

definition new_requests :: "world \<Rightarrow> world \<Rightarrow> request list" where
  "new_requests w w' = drop (length (requests w)) (requests w')"

text \<open>\<open>registered w w'\<close>: \<open>w'\<close> has the handler table of \<open>w\<close>, and every call made on the
  way from \<open>w\<close> to \<open>w'\<close> went to a handler registered in \<open>w\<close> under the kind of the call.\<close>

definition registered :: "world \<Rightarrow> world \<Rightarrow> bool" where
  "registered w w' \<longleftrightarrow>
     events w' = events w \<and>
     (\<exists>cs. calls w' = calls w @ cs \<and> (\<forall>c\<in>set cs. target c \<in> set (handlers w (kind c))))"

text \<open>The requests numbered \<open>i\<close>, \<open>i + 1\<close>, ... complete in that order, each with status 200
  and the next body of the list.\<close>

fun complete :: "nat \<Rightarrow> json list \<Rightarrow> world \<Rightarrow> world" where
  "complete i [] w = w"
| "complete i (d # ds) w = complete (Suc i) ds (respond i (Response 200 (Json d)) w)"

text \<open>What every reachable state satisfies: the timer table holds exactly the timer the
  object remembers, armed with the current retry interval; the base interval is 2000 and
  the retry interval lies between 2000 and 5000; outside \<open>CLOSED\<close> the retry interval is the base
  interval; and a handler occurs at most once in a set.\<close>

definition consistent :: "world \<Rightarrow> bool" where
  "consistent w \<longleftrightarrow>
     (\<exists>t. interval w = Some t \<and> timers w = [(t, timeout w)]) \<and>
     openTimeout w = 2000 \<and>
     2000 \<le> timeout w \<and> timeout w \<le> 5000 \<and>
     (readyState w \<noteq> CLOSED \<longrightarrow> timeout w = 2000) \<and>
     (\<forall>k hs. events w k = Some hs \<longrightarrow> distinct hs)"

subsection \<open>Sample inputs\<close>

text \<open>A channel with one handler of each kind, a well-formed poll response, and an error
  response whose body is a JSON object.\<close>

definition demo :: world where
  "demo = addEventListener ''message'' 3 (addEventListener ''close'' 2
            (addEventListener ''open'' 1 (new_HTTPSSocket ''http://host/polling?sessionId=s'')))"

definition ok :: "json list \<Rightarrow> response" where
  "ok ms = Response 200 (Json (JObj [(''messages'', JArr ms)]))"

definition server_error :: response where
  "server_error = Response 500 (Json (JObj [(''error'', JStr ''unavailable'')]))"

section \<open>Properties\<close>

subsection \<open>What each piece of code does to the state\<close>

lemmas eval_defs =
  polls_def poll_def respond_def gather_def fetch_def gather_then_def execute_def
  execute_open_def gather_catch_def forEach_def setInterval_def addEventListener_def
  set_add_def new_HTTPSSocket_def connect_def Let_def relay_then_def push_then_def
  deliver_def reject_def send_def relay_def removeEventListener_def set_delete_def run_def
  new_calls_def new_requests_def handlers_def demo_def ok_def

lemma fold_relay_fields [simp]:
  "location (fold relay ms w) = location w"
  "events (fold relay ms w) = events w"
  "readyState (fold relay ms w) = readyState w"
  "openTimeout (fold relay ms w) = openTimeout w"
  "timeout (fold relay ms w) = timeout w"
  "interval (fold relay ms w) = interval w"
  "timers (fold relay ms w) = timers w"
  "next_timer (fold relay ms w) = next_timer w"
  "calls (fold relay ms w) = calls w"
  "unhandled (fold relay ms w) = unhandled w"
  by (induction ms arbitrary: w; simp add: relay_def fetch_def)+

lemma fold_relay_requests:
  "requests (fold relay ms w) =
     requests w @ map (\<lambda>m. Request ''post'' (location w @ ''&mode=pull'')
                              (Some (JSON_stringify m)) Relay) ms"
  by (induction ms arbitrary: w) (simp_all add: relay_def fetch_def)

lemma execute_open_cases:
  "execute_open w =
     (if readyState w = OPEN then Inr w
      else case events w ''open'' of
             None \<Rightarrow> Inl TypeError
           | Some hs \<Rightarrow>
               Inr (w\<lparr>calls := calls w @ map (\<lambda>h. Call ''open'' h Null) hs,
                      timeout := openTimeout w,
                      timers := filter (\<lambda>p. Some (fst p) \<noteq> interval w) (timers w)
                                @ [(next_timer w, openTimeout w)],
                      next_timer := Suc (next_timer w),
                      interval := Some (next_timer w)\<rparr>))"
  by (cases "readyState w"; cases "interval w")
     (auto simp: execute_open_def forEach_def setInterval_def Let_def split: option.splits)

lemma gather_catch_eq:
  "gather_catch w =
     w\<lparr>calls := calls w @ (if readyState w = OPEN
                            then map (\<lambda>h. Call ''close'' h Null) (handlers w ''close'')
                            else []),
       readyState := CLOSED,
       timers := filter (\<lambda>p. Some (fst p) \<noteq> interval w) (timers w)
                 @ [(next_timer w, min (timeout w * 2) 5000)],
       timeout := min (timeout w * 2) 5000,
       next_timer := Suc (next_timer w),
       interval := Some (next_timer w)\<rparr>"
  by (cases "interval w")
     (auto simp: gather_catch_def handlers_def forEach_def setInterval_def Let_def
           split: option.splits)

subsection \<open>The invariant\<close>

lemma consistent_new: "consistent (new_HTTPSSocket loc)"
  by (simp add: consistent_def new_HTTPSSocket_def connect_def gather_def fetch_def
      setInterval_def Let_def)

lemma consistent_fetch: "consistent (fetch u v b k w) = consistent w"
  by (simp add: consistent_def fetch_def)

lemma consistent_reject: "consistent (reject e w) = consistent w"
  by (simp add: consistent_def reject_def)

lemma consistent_forEach: "consistent (forEach k hs a w) = consistent w"
  by (simp add: consistent_def forEach_def)

lemma consistent_fold_relay: "consistent (fold relay ms w) = consistent w"
  by (simp add: consistent_def)

lemma consistent_gather_catch: "consistent w \<Longrightarrow> consistent (gather_catch w)"
  by (auto simp: consistent_def gather_catch_eq)

lemma consistent_execute_open:
  "consistent w \<Longrightarrow> execute_open w = Inr w1 \<Longrightarrow> consistent (w1\<lparr>readyState := OPEN\<rparr>)"
  by (auto simp: consistent_def execute_open_cases split: option.splits if_splits)

lemma consistent_execute: "consistent w \<Longrightarrow> execute m w = (e, w') \<Longrightarrow> consistent w'"
  by (auto simp: execute_def Let_def consistent_fold_relay
      split: sum.splits option.splits json.splits dest: consistent_execute_open)

lemma consistent_deliver: "consistent w \<Longrightarrow> deliver d w = (e, w') \<Longrightarrow> consistent w'"
  by (auto simp: deliver_def consistent_forEach split: option.splits)

lemma consistent_gather_then: "consistent w \<Longrightarrow> consistent (gather_then r w)"
  by (auto simp: gather_then_def split: sum.splits prod.splits option.splits
      intro: consistent_gather_catch dest: consistent_execute)

lemma consistent_relay_then: "consistent w \<Longrightarrow> consistent (relay_then r w)"
  by (auto simp: relay_then_def consistent_reject split: sum.splits prod.splits option.splits
      dest: consistent_deliver)

lemma consistent_push_then: "consistent w \<Longrightarrow> consistent (push_then r w)"
  by (auto simp: push_then_def consistent_reject
      split: sum.splits prod.splits option.splits if_splits
      dest: consistent_execute consistent_deliver)

lemma consistent_respond: "consistent w \<Longrightarrow> consistent (respond i r w)"
proof -
  assume w: "consistent w"
  then have "consistent (w\<lparr>pending := (pending w)(i := None)\<rparr>)"
    by (simp add: consistent_def)
  then show ?thesis
    by (auto simp: respond_def Let_def consistent_gather_then consistent_relay_then
        consistent_push_then w split: option.splits continuation.splits)
qed

lemma distinct_set_add: "distinct hs \<Longrightarrow> distinct (set_add h hs)"
  by (simp add: set_add_def)

lemma consistent_addEventListener: "consistent w \<Longrightarrow> consistent (addEventListener k h w)"
  by (auto simp: consistent_def addEventListener_def Let_def distinct_set_add
      split: option.splits if_splits)

lemma consistent_removeEventListener:
  "consistent w \<Longrightarrow> consistent (snd (removeEventListener k h w))"
  by (auto simp: consistent_def removeEventListener_def set_delete_def distinct_removeAll
      split: option.splits if_splits)

lemma consistent_step: "consistent w \<Longrightarrow> consistent (step w a)"
  by (cases a) (simp_all add: gather_def send_def consistent_fetch consistent_respond
      consistent_addEventListener consistent_removeEventListener)

lemma reachable_consistent: "reachable w \<Longrightarrow> consistent w"
  by (induction rule: reachable.induct) (simp_all add: consistent_new consistent_step)

lemma reachable_run: "reachable w \<Longrightarrow> reachable (run w as)"
  unfolding run_def by (induction as arbitrary: w) (simp_all add: reach_step)

lemma reachable_demo: "reachable demo"
proof -
  have "demo = run (new_HTTPSSocket ''http://host/polling?sessionId=s'')
          [AddEventListener ''open'' 1, AddEventListener ''close'' 2,
           AddEventListener ''message'' 3]"
    by (simp add: demo_def run_def)
  moreover have "reachable (run (new_HTTPSSocket ''http://host/polling?sessionId=s'')
          [AddEventListener ''open'' 1, AddEventListener ''close'' 2,
           AddEventListener ''message'' 3])"
    by (rule reachable_run [OF reach_init])
  ultimately show ?thesis
    by (simp only:)
qed

subsection \<open>Polls\<close>

lemma poll_eq: "poll r w = gather_then r (issued w)"
  by (simp add: poll_def respond_def gather_def fetch_def issued_def)

lemma gather_then_rejected: "rejected r \<Longrightarrow> gather_then r w = gather_catch w"
  by (cases r rule: rejected.cases) (simp_all add: gather_then_def)

lemma gather_then_batch:
  "batch r = Some ms \<Longrightarrow>
   gather_then r w =
     (case execute_open w of
        Inl e \<Rightarrow> gather_catch w
      | Inr w1 \<Rightarrow> fold relay ms (w1\<lparr>readyState := OPEN\<rparr>))"
  by (cases r rule: batch.cases)
     (auto simp: gather_then_def execute_def Let_def split: option.splits json.splits sum.splits)

lemma poll_events [simp]: "events (poll r w) = events w"
  by (auto simp: poll_eq issued_def gather_then_def execute_def Let_def execute_open_cases gather_catch_eq
      split: sum.splits option.splits json.splits prod.splits if_splits)

lemma poll_handlers [simp]: "handlers (poll r w) k = handlers w k"
  by (simp add: handlers_def)

lemma poll_batch_calls:
  "batch r = Some ms \<Longrightarrow>
   calls (poll r w) =
     calls w @ (if readyState w = OPEN then []
                else map (\<lambda>h. Call ''open'' h Null) (handlers w ''open''))"
  by (auto simp: poll_eq gather_then_batch execute_open_cases gather_catch_eq issued_def handlers_def
      split: option.splits)

lemma poll_batch_readyState:
  "batch r = Some ms \<Longrightarrow>
   readyState (poll r w) =
     (if readyState w = OPEN \<or> events w ''open'' \<noteq> None then OPEN else CLOSED)"
  by (auto simp: poll_eq gather_then_batch execute_open_cases gather_catch_eq issued_def
      split: option.splits)

lemma poll_batch_timeout:
  "batch r = Some ms \<Longrightarrow>
   timeout (poll r w) =
     (if readyState w = OPEN then timeout w
      else if events w ''open'' \<noteq> None then openTimeout w
      else min (timeout w * 2) 5000)"
  by (auto simp: poll_eq gather_then_batch execute_open_cases gather_catch_eq issued_def
      split: option.splits)

lemma poll_batch_requests:
  "batch r = Some ms \<Longrightarrow>
   requests (poll r w) =
     requests w @ Request ''get'' (location w) None Gather #
       (if readyState w = OPEN \<or> events w ''open'' \<noteq> None
        then map (\<lambda>m. Request ''post'' (location w @ ''&mode=pull'') (Some (JSON_stringify m)) Relay) ms
        else [])"
  by (auto simp: poll_eq gather_then_batch execute_open_cases gather_catch_eq issued_def
        fold_relay_requests split: option.splits)

lemma poll_rejected_calls:
  "rejected r \<Longrightarrow>
   calls (poll r w) =
     calls w @ (if readyState w = OPEN
                then map (\<lambda>h. Call ''close'' h Null) (handlers w ''close'') else [])"
  by (simp add: poll_eq gather_then_rejected gather_catch_eq issued_def handlers_def)

lemma poll_rejected_fields:
  "rejected r \<Longrightarrow> readyState (poll r w) = CLOSED"
  "rejected r \<Longrightarrow> timeout (poll r w) = min (timeout w * 2) 5000"
  "rejected r \<Longrightarrow> requests (poll r w) = requests w @ [Request ''get'' (location w) None Gather]"
  by (simp_all add: poll_eq gather_then_rejected gather_catch_eq issued_def)

lemma poll_unhandled [simp]: "unhandled (poll r w) = unhandled w"
  by (auto simp: poll_eq issued_def gather_then_def execute_def Let_def execute_open_cases gather_catch_eq
      split: sum.splits option.splits json.splits prod.splits if_splits)

lemma poll_run:
  "timers w \<noteq> [] \<Longrightarrow> poll r w = run w [Tick, Respond (length (requests w)) r]"
  by (simp add: poll_def run_def gather_def fetch_def)

lemma reachable_poll: "reachable w \<Longrightarrow> reachable (poll r w)"
proof -
  assume r: "reachable w"
  then have "timers w \<noteq> []"
    by (auto dest: reachable_consistent simp: consistent_def)
  then show ?thesis
    using r by (simp add: poll_run reachable_run)
qed

lemma reachable_polls: "reachable w \<Longrightarrow> reachable (polls rs w)"
  unfolding polls_def by (induction rs arbitrary: w) (simp_all add: reachable_poll)

lemma polls_events [simp]: "events (polls rs w) = events w"
  unfolding polls_def by (induction rs arbitrary: w) simp_all

lemma polls_handlers [simp]: "handlers (polls rs w) k = handlers w k"
  by (simp add: handlers_def)

lemma polls_batch_calls:
  "\<forall>r\<in>set rs. batch r \<noteq> None \<Longrightarrow>
   calls (polls rs w) =
     calls w @ (if rs = [] \<or> readyState w = OPEN then []
                else map (\<lambda>h. Call ''open'' h Null) (handlers w ''open''))"
proof (induction rs arbitrary: w)
  case Nil
  then show ?case by (simp add: polls_def)
next
  case (Cons r rs)
  from Cons.prems obtain ms where ms: "batch r = Some ms" by auto
  have step: "polls (r # rs) w = polls rs (poll r w)"
    by (simp add: polls_def)
  from Cons.prems have "\<forall>r\<in>set rs. batch r \<noteq> None" by simp
  note ih = Cons.IH [OF this, of "poll r w"]
  show ?case
    unfolding step ih
    by (auto simp: poll_batch_calls [OF ms] poll_batch_readyState [OF ms] handlers_def
        split: option.splits)
qed

lemma distinct_handlers: "consistent w \<Longrightarrow> distinct (handlers w k)"
  by (auto simp: consistent_def handlers_def split: option.splits)

lemma backoff_arith:
  fixes t :: nat
  shows "min (min (t * 2) 5000 * 2 ^ n) 5000 = min (t * 2 ^ Suc n) 5000"
proof (cases "t * 2 \<le> 5000")
  case True
  then show ?thesis by (simp add: min_absorb1 mult.assoc)
next
  case False
  have "(1::nat) \<le> 2 ^ n" by simp
  then have a: "5000 \<le> (5000::nat) * 2 ^ n" by simp
  from False have "5000 < t * 2" by simp
  also have "t * 2 \<le> t * 2 * 2 ^ n" by simp
  finally have b: "5000 < t * 2 ^ Suc n" by (simp add: mult.assoc)
  from False have "min (t * 2) 5000 = 5000" by simp
  then have "min (min (t * 2) 5000 * 2 ^ n) 5000 = min (5000 * 2 ^ n) 5000" by simp
  also from a have "\<dots> = 5000" by (rule min_absorb2)
  also from b have "5000 = min (t * 2 ^ Suc n) 5000" by (simp only: min_absorb2 less_imp_le)
  finally show ?thesis .
qed

lemma polls_rejected_timeout:
  "\<forall>r\<in>set rs. rejected r \<Longrightarrow> timeout w \<le> 5000 \<Longrightarrow>
   timeout (polls rs w) = min (timeout w * 2 ^ length rs) 5000"
proof (induction rs arbitrary: w)
  case Nil
  then show ?case by (simp add: polls_def)
next
  case (Cons r rs)
  have step: "polls (r # rs) w = polls rs (poll r w)"
    by (simp add: polls_def)
  from Cons.prems have r: "rejected r" and rs: "\<forall>r\<in>set rs. rejected r" by simp_all
  have "timeout (poll r w) \<le> 5000"
    by (simp add: poll_rejected_fields [OF r])
  from Cons.IH [OF rs this] show ?case
    unfolding step by (simp only: poll_rejected_fields [OF r] backoff_arith length_Cons)
qed

lemma polls_rejected_calls:
  "\<forall>r\<in>set rs. rejected r \<Longrightarrow>
   calls (polls rs w) =
     calls w @ (if rs \<noteq> [] \<and> readyState w = OPEN
                then map (\<lambda>h. Call ''close'' h Null) (handlers w ''close'') else [])"
proof (induction rs arbitrary: w)
  case Nil
  then show ?case by (simp add: polls_def)
next
  case (Cons r rs)
  have step: "polls (r # rs) w = polls rs (poll r w)"
    by (simp add: polls_def)
  from Cons.prems have r: "rejected r" and rs: "\<forall>r\<in>set rs. rejected r" by simp_all
  show ?case
    unfolding step Cons.IH [OF rs]
    by (simp add: poll_rejected_calls [OF r] poll_rejected_fields [OF r])
qed

lemma polls_rejected_readyState:
  "\<forall>r\<in>set rs. rejected r \<Longrightarrow> rs \<noteq> [] \<Longrightarrow> readyState (polls rs w) = CLOSED"
proof (induction rs arbitrary: w)
  case Nil
  then show ?case by simp
next
  case (Cons r rs)
  have step: "polls (r # rs) w = polls rs (poll r w)"
    by (simp add: polls_def)
  from Cons.prems have r: "rejected r" and rs: "\<forall>r\<in>set rs. rejected r" by simp_all
  show ?case
  proof (cases "rs = []")
    case True
    then show ?thesis by (simp add: polls_def poll_rejected_fields [OF r])
  next
    case False
    from Cons.IH [OF rs False] show ?thesis unfolding step .
  qed
qed

lemma consistent_delays: "consistent w \<Longrightarrow> map snd (timers w) = [timeout w]"
  by (auto simp: consistent_def)

subsection \<open>One timer\<close>

text \<open>C8. In every state a channel can reach, the timer table holds exactly one timer:
  the one whose identifier the object stores in \<open>interval\<close>, armed with the current retry
  interval. \<open>connect\<close> arms the first timer; \<open>execute\<close> and the failure branch of \<open>gather\<close>
  cancel the stored timer before they arm the next, so two poll timers are never live
  together.\<close>

theorem single_poll_timer:
  "reachable w \<Longrightarrow>
     length (timers w) \<le> 1 \<and> (\<exists>t. interval w = Some t \<and> timers w = [(t, timeout w)])"
proof -
  assume "reachable w"
  then have "consistent w"
    by (rule reachable_consistent)
  then obtain t where "interval w = Some t" "timers w = [(t, timeout w)]"
    unfolding consistent_def by blast
  then show ?thesis
    by simp
qed

theorem single_poll_timer_witness:
  "reachable (run demo [Tick, Respond 1 NetworkError, Tick, Respond 2 (ok [])]) \<and>
   length (timers (run demo [Tick, Respond 1 NetworkError, Tick, Respond 2 (ok [])])) \<le> 1 \<and>
   timers (run demo [Tick, Respond 1 NetworkError, Tick, Respond 2 (ok [])]) = [(2, 2000)]"
proof -
  have r: "reachable (run demo [Tick, Respond 1 NetworkError, Tick, Respond 2 (ok [])])"
    by (rule reachable_run [OF reachable_demo])
  have "timers (run demo [Tick, Respond 1 NetworkError, Tick, Respond 2 (ok [])]) = [(2, 2000)]"
    by (simp add: eval_defs)
  with r single_poll_timer [OF r] show ?thesis by simp
qed

subsection \<open>The \<open>open\<close> event\<close>

text \<open>C1, as amended. Take any run of one or more consecutive polls that each deliver a
  batch (the parsed body has an array under \<open>messages\<close>), from a reachable state. If the channel is \<open>CLOSED\<close> or \<open>CONNECTING\<close> when the run starts, the
  handler calls made during the whole run are exactly one \<open>open\<close> call, with \<open>null\<close>, for
  each handler registered under \<open>open\<close>, and no handler is registered twice; if the
  channel is already \<open>OPEN\<close>, no handler is called. A run of length one is a single poll.\<close>

theorem open_edge_triggered:
  assumes "reachable w" and "rs \<noteq> []" and "\<forall>r\<in>set rs. batch r \<noteq> None"
  shows "new_calls w (polls rs w) =
           (if readyState w = OPEN then []
            else map (\<lambda>h. Call ''open'' h Null) (handlers w ''open'')) \<and>
         distinct (handlers w ''open'')"
  using assms
  by (simp add: new_calls_def polls_batch_calls distinct_handlers reachable_consistent)

theorem open_edge_triggered_witness:
  "reachable demo \<and> [ok [], ok [JNum 7], ok []] \<noteq> [] \<and>
   batch (ok []) \<noteq> None \<and> batch (ok [JNum 7]) \<noteq> None \<and>
   readyState demo = CONNECTING \<and> handlers demo ''open'' = [1] \<and>
   new_calls demo (polls [ok [], ok [JNum 7], ok []] demo) = [Call ''open'' 1 Null]"
proof -
  have b: "\<forall>r\<in>set [ok [], ok [JNum 7], ok []]. batch r \<noteq> None"
    by (simp add: ok_def)
  have s: "readyState demo = CONNECTING" and h: "handlers demo ''open'' = [1]"
    by (simp_all add: eval_defs)
  from open_edge_triggered [OF reachable_demo _ b] reachable_demo b s h
  show ?thesis by simp
qed

text \<open>The claim as stated speaks of every poll whose fetch and parse succeed. Two polls
  answered with status 200 and the body \<open>{}\<close> on a new channel make the \<open>open\<close> call
  twice, each followed by a \<open>close\<close> call: \<open>execute\<close> makes the \<open>open\<close> call and sets \<open>OPEN\<close>
  before it throws on the missing batch. A poll answered with the body \<open>null\<close> makes no
  \<open>open\<close> call on a \<open>CONNECTING\<close> channel: the destructuring throws before \<open>execute\<close>.\<close>

theorem open_edge_triggered_counterexample:
  "readyState demo = CONNECTING \<and> handlers demo ''open'' = [1] \<and>
   new_calls demo (polls [Response 200 (Json (JObj [])), Response 200 (Json (JObj []))] demo)
     = [Call ''open'' 1 Null, Call ''close'' 2 Null, Call ''open'' 1 Null, Call ''close'' 2 Null] \<and>
   new_calls demo (poll (Response 200 (Json JNull)) demo) = [] \<and>
   readyState (poll (Response 200 (Json JNull)) demo) = CLOSED"
  by (simp add: eval_defs)

subsection \<open>Backoff\<close>

text \<open>C2, as amended. Take a reachable channel that is not \<open>CLOSED\<close> (it is new, or its last
  poll succeeded) and any sequence of polls that fail before a batch is processed: no
  response arrives, or the body is not JSON or is \<open>null\<close>. After \<open>n\<close> of them the retry
  interval, and the delay of the one live timer, is \<open>min (2000 * 2 ^ n) 5000\<close>: 2000, 4000,
  5000, 5000, ..., never above 5000. A following poll that delivers a batch, on a channel
  with an entry for \<open>open\<close>, sets both back to 2000.\<close>

theorem backoff_schedule:
  assumes "reachable w" and "readyState w \<noteq> CLOSED" and "\<forall>r\<in>set rs. rejected r"
  shows "timeout (polls rs w) = min (2000 * 2 ^ length rs) 5000 \<and>
         map snd (timers (polls rs w)) = [min (2000 * 2 ^ length rs) 5000] \<and>
         timeout (polls rs w) \<le> 5000 \<and>
         (batch r \<noteq> None \<and> events w ''open'' \<noteq> None \<longrightarrow>
            timeout (poll r (polls rs w)) = 2000 \<and>
            map snd (timers (poll r (polls rs w))) = [2000])"
proof -
  from assms(1) have c: "consistent w"
    by (rule reachable_consistent)
  with assms(2) have t: "timeout w = 2000" and "timeout w \<le> 5000"
    by (simp_all add: consistent_def)
  with assms(3) have a: "timeout (polls rs w) = min (2000 * 2 ^ length rs) 5000"
    by (simp add: polls_rejected_timeout)
  have cv: "consistent (polls rs w)"
    using assms(1) by (intro reachable_consistent reachable_polls)
  have b: "map snd (timers (polls rs w)) = [min (2000 * 2 ^ length rs) 5000]"
    using consistent_delays [OF cv] a by simp
  have d: "timeout (poll r (polls rs w)) = 2000 \<and> map snd (timers (poll r (polls rs w))) = [2000]"
    if "batch r \<noteq> None" and "events w ''open'' \<noteq> None"
  proof -
    from that obtain ms where ms: "batch r = Some ms" by auto
    have cp: "consistent (poll r (polls rs w))"
      using assms(1) by (intro reachable_consistent reachable_poll reachable_polls)
    have "timeout (poll r (polls rs w)) = 2000"
      using cv that(2) by (auto simp: poll_batch_timeout [OF ms] consistent_def)
    with consistent_delays [OF cp] show ?thesis by simp
  qed
  from a b d show ?thesis by simp
qed

theorem backoff_schedule_witness:
  "reachable demo \<and> readyState demo \<noteq> CLOSED \<and>
   rejected NetworkError \<and> rejected (Response 502 Invalid) \<and>
   timeout (polls [NetworkError, Response 502 Invalid, NetworkError] demo) = 5000 \<and>
   map snd (timers (polls [NetworkError, Response 502 Invalid, NetworkError] demo)) = [5000] \<and>
   batch (ok []) \<noteq> None \<and> events demo ''open'' \<noteq> None \<and>
   timeout (poll (ok []) (polls [NetworkError, Response 502 Invalid, NetworkError] demo)) = 2000"
proof -
  have s: "readyState demo \<noteq> CLOSED" and e: "events demo ''open'' \<noteq> None"
    by (simp_all add: eval_defs)
  have f: "\<forall>r\<in>set [NetworkError, Response 502 Invalid, NetworkError]. rejected r"
    by simp
  have b: "batch (ok []) \<noteq> None"
    by (simp add: ok_def)
  from backoff_schedule [OF reachable_demo s f, of "ok []"] reachable_demo s e f b
  show ?thesis by simp
qed

text \<open>The claim as stated fails when a failing poll has a JSON body. The third poll below
  is answered with status 500 and a JSON object: \<open>execute\<close> runs, resets the interval to
  2000 and throws on the missing batch, and the failure branch doubles it to 4000, where
  the claim schedules 5000.\<close>

theorem backoff_schedule_counterexample:
  "timeout (polls [NetworkError] demo) = 4000 \<and>
   timeout (polls [NetworkError, NetworkError] demo) = 5000 \<and>
   timeout (polls [NetworkError, NetworkError, server_error] demo) = 4000 \<and>
   readyState (polls [NetworkError, NetworkError, server_error] demo) = CLOSED \<and>
   status server_error = 500"
  by (simp add: eval_defs server_error_def)

subsection \<open>The \<open>close\<close> event\<close>

text \<open>C3, as amended. A poll fails here when no response arrives or the body is not JSON
  (or is \<open>null\<close>), whatever the status. Take one or more such polls in a row from a
  reachable state: if the channel is \<open>OPEN\<close> when they start, the handler calls made are
  exactly one \<open>close\<close> call for each handler registered under \<open>close\<close>; if it is \<open>CLOSED\<close> or
  \<open>CONNECTING\<close>, none; and the channel ends \<open>CLOSED\<close>. So an outage of any number of such
  polls between two polls that deliver a batch, on a channel with an entry for \<open>open\<close>,
  makes one \<open>close\<close> call per \<open>close\<close> handler and then one \<open>open\<close> call per \<open>open\<close> handler.\<close>

theorem close_edge_triggered:
  assumes "reachable w" and "fs \<noteq> []" and "\<forall>f\<in>set fs. rejected f"
  shows "new_calls w (polls fs w) =
           (if readyState w = OPEN
            then map (\<lambda>h. Call ''close'' h Null) (handlers w ''close'') else []) \<and>
         readyState (polls fs w) = CLOSED \<and>
         distinct (handlers w ''close'') \<and> distinct (handlers w ''open'') \<and>
         (batch r1 \<noteq> None \<and> batch r2 \<noteq> None \<and> events w ''open'' \<noteq> None \<longrightarrow>
            new_calls (poll r1 w) (poll r2 (polls fs (poll r1 w))) =
              map (\<lambda>h. Call ''close'' h Null) (handlers w ''close'') @
              map (\<lambda>h. Call ''open'' h Null) (handlers w ''open''))"
proof -
  from assms(1) have c: "consistent w"
    by (rule reachable_consistent)
  have a: "new_calls w (polls fs w) =
           (if readyState w = OPEN
            then map (\<lambda>h. Call ''close'' h Null) (handlers w ''close'') else [])"
    using assms(2,3) by (simp add: new_calls_def polls_rejected_calls)
  have b: "readyState (polls fs w) = CLOSED"
    using assms(2,3) by (rule polls_rejected_readyState [rotated])
  have d: "new_calls (poll r1 w) (poll r2 (polls fs (poll r1 w))) =
              map (\<lambda>h. Call ''close'' h Null) (handlers w ''close'') @
              map (\<lambda>h. Call ''open'' h Null) (handlers w ''open'')"
    if "batch r1 \<noteq> None" and "batch r2 \<noteq> None" and "events w ''open'' \<noteq> None"
  proof -
    from that obtain m1 m2 where m1: "batch r1 = Some m1" and m2: "batch r2 = Some m2" by auto
    have o: "readyState (poll r1 w) = OPEN"
      using that(3) by (simp add: poll_batch_readyState [OF m1])
    have cl: "readyState (polls fs (poll r1 w)) = CLOSED"
      using assms(2,3) by (rule polls_rejected_readyState [rotated])
    show ?thesis
      using assms(2,3) o cl
      by (simp add: new_calls_def poll_batch_calls [OF m2] polls_rejected_calls)
  qed
  from a b d c show ?thesis
    by (simp add: distinct_handlers)
qed

theorem close_edge_triggered_witness:
  "reachable (poll (ok []) demo) \<and> [NetworkError, Response 404 Invalid] \<noteq> [] \<and>
   rejected NetworkError \<and> rejected (Response 404 Invalid) \<and>
   readyState (poll (ok []) demo) = OPEN \<and>
   new_calls (poll (ok []) demo) (polls [NetworkError, Response 404 Invalid] (poll (ok []) demo))
     = [Call ''close'' 2 Null] \<and>
   batch (ok []) \<noteq> None \<and> batch (ok [JNum 1]) \<noteq> None \<and>
   events (poll (ok []) demo) ''open'' \<noteq> None \<and>
   new_calls (poll (ok []) (poll (ok []) demo))
     (poll (ok [JNum 1]) (polls [NetworkError, Response 404 Invalid]
        (poll (ok []) (poll (ok []) demo))))
     = [Call ''close'' 2 Null, Call ''open'' 1 Null]"
proof -
  have r: "reachable (poll (ok []) demo)"
    by (rule reachable_poll [OF reachable_demo])
  have f: "\<forall>f\<in>set [NetworkError, Response 404 Invalid]. rejected f"
    by simp
  have b: "batch (ok []) \<noteq> None" "batch (ok [JNum 1]) \<noteq> None"
    by (simp_all add: ok_def)
  have e: "events (poll (ok []) demo) ''open'' \<noteq> None"
    by (simp add: eval_defs)
  have s: "readyState (poll (ok []) demo) = OPEN"
    by (simp add: eval_defs)
  have h: "handlers (poll (ok []) demo) ''close'' = [2]" "handlers (poll (ok []) demo) ''open'' = [1]"
    by (simp_all add: eval_defs)
  from close_edge_triggered [OF r _ f, of "ok []" "ok [JNum 1]"] r f b e s h
  show ?thesis by simp
qed

text \<open>The claim as stated counts a response with a status outside 2xx as a failing poll.
  The class never reads the status. Below, the channel is opened by a first poll. A poll
  answered with status 500 and a well-formed batch then calls no \<open>close\<close> handler and
  leaves the channel \<open>OPEN\<close>. When instead the next two polls are answered with status 500
  and a JSON object without a batch, and a last poll succeeds, the first of the two
  makes the \<open>close\<close> call; the second finds the channel \<open>CLOSED\<close>, yet \<open>execute\<close> makes the
  \<open>open\<close> call before it throws on the missing batch, and the failure branch then makes
  a second \<open>close\<close> call.\<close>

theorem close_edge_triggered_counterexample:
  "readyState (poll (ok []) demo) = OPEN \<and>
   handlers (poll (ok []) demo) ''close'' = [2] \<and>
   new_calls (poll (ok []) demo)
     (poll (Response 500 (Json (JObj [(''messages'', JArr [])]))) (poll (ok []) demo)) = [] \<and>
   readyState (poll (Response 500 (Json (JObj [(''messages'', JArr [])]))) (poll (ok []) demo))
     = OPEN \<and>
   readyState (polls [server_error] (poll (ok []) demo)) = CLOSED \<and>
   new_calls (polls [server_error] (poll (ok []) demo))
     (polls [server_error, server_error] (poll (ok []) demo))
     = [Call ''open'' 1 Null, Call ''close'' 2 Null] \<and>
   new_calls (poll (ok []) demo) (polls [server_error, server_error, ok []] (poll (ok []) demo))
     = [Call ''close'' 2 Null, Call ''open'' 1 Null, Call ''close'' 2 Null, Call ''open'' 1 Null]"
  by (simp add: eval_defs server_error_def)

subsection \<open>Completions in general\<close>

lemma execute_timeout:
  "execute m w = (e, w') \<Longrightarrow>
   timeout w' = (if readyState w \<noteq> OPEN \<and> readyState w' = OPEN then openTimeout w else timeout w)"
  by (auto simp: execute_def Let_def execute_open_cases
      split: sum.splits option.splits json.splits if_splits)

lemma deliver_timeout: "deliver d w = (e, w') \<Longrightarrow> timeout w' = timeout w \<and> readyState w' = readyState w \<and> events w' = events w"
  by (auto simp: deliver_def forEach_def split: option.splits)

lemma relay_then_timeout: "timeout (relay_then r w) = timeout w"
  by (auto simp: relay_then_def reject_def split: sum.splits prod.splits option.splits
      dest: deliver_timeout)

lemma execute_reset:
  "execute m w = (e, w') \<Longrightarrow> consistent w \<Longrightarrow> timeout w' \<noteq> timeout w \<Longrightarrow>
   readyState w = CLOSED \<and> readyState w' = OPEN \<and> timeout w' = 2000"
  by (auto simp: execute_def Let_def execute_open_cases consistent_def
      split: sum.splits option.splits json.splits if_splits)

lemma gather_catch_above: "consistent w \<Longrightarrow> 4000 \<le> timeout (gather_catch w)"
  by (simp add: gather_catch_eq consistent_def)

lemma gather_then_reset:
  assumes "consistent w" and "timeout (gather_then r w) = 2000" and "timeout w \<noteq> 2000"
  shows "readyState w = CLOSED \<and> readyState (gather_then r w) = OPEN"
proof (cases "json_of r")
  case (Inl e)
  with gather_catch_above [OF assms(1)] assms(2) show ?thesis
    by (simp add: gather_then_def)
next
  case (Inr d)
  show ?thesis
  proof (cases "property d ''messages''")
    case (Inl e)
    with Inr gather_catch_above [OF assms(1)] assms(2) show ?thesis
      by (simp add: gather_then_def)
  next
    case (Inr m)
    obtain e w' where x: "execute m w = (e, w')" by (cases "execute m w")
    have c': "consistent w'" by (rule consistent_execute [OF assms(1) x])
    show ?thesis
    proof (cases e)
      case None
      with x Inr \<open>json_of r = Inr d\<close> have g: "gather_then r w = w'"
        by (simp add: gather_then_def)
      with assms(2,3) have "timeout w' \<noteq> timeout w" by simp
      from execute_reset [OF x assms(1) this] g show ?thesis by simp
    next
      case (Some ex)
      with x Inr \<open>json_of r = Inr d\<close> have "gather_then r w = gather_catch w'"
        by (simp add: gather_then_def)
      with gather_catch_above [OF c'] assms(2) show ?thesis by simp
    qed
  qed
qed

lemma push_then_reset:
  assumes "consistent w" and "timeout (push_then r w) \<noteq> timeout w"
  shows "readyState w = CLOSED \<and> readyState (push_then r w) = OPEN \<and>
         timeout (push_then r w) = 2000"
proof (cases "json_of r")
  case (Inl e)
  with assms(2) show ?thesis by (simp add: push_then_def reject_def)
next
  case (Inr j)
  note j = this
  show ?thesis
  proof (cases "property j ''messages''")
    case (Inl e)
    with j assms(2) show ?thesis by (simp add: push_then_def reject_def)
  next
    case (Inr m)
    note m = this
    show ?thesis
    proof (cases "property j ''type''")
      case (Inl e)
      with j m assms(2) show ?thesis by (simp add: push_then_def reject_def)
    next
      case (Inr t)
      obtain e w1 where x: "(if truthy m then execute m w else (None, w)) = (e, w1)"
        by (cases "if truthy m then execute m w else (None, w)")
      obtain e2 w2 where y: "deliver j w1 = (e2, w2)"
        by (cases "deliver j w1")
      from deliver_timeout [OF y] have w2: "timeout w2 = timeout w1" "readyState w2 = readyState w1"
        by simp_all
      have same: "timeout (push_then r w) = timeout w1 \<and> readyState (push_then r w) = readyState w1"
        using j m Inr x y w2
        by (simp add: push_then_def reject_def split: option.splits)
      with assms(2) have ne: "timeout w1 \<noteq> timeout w" by simp
      with x have ex: "execute m w = (e, w1)"
        by (auto split: if_splits)
      from execute_reset [OF ex assms(1) ne] same show ?thesis by simp
    qed
  qed
qed

lemma step_reset:
  assumes "consistent w" and "timeout (step w a) = 2000" and "timeout w \<noteq> 2000"
  shows "(\<exists>i r. a = Respond i r \<and> (pending w i = Some Gather \<or> pending w i = Some Push)) \<and>
         readyState w = CLOSED \<and> readyState (step w a) = OPEN"
proof (cases a)
  case (Respond i r)
  let ?v = "w\<lparr>pending := (pending w)(i := None)\<rparr>"
  have v: "consistent ?v" using assms(1) by (simp add: consistent_def)
  show ?thesis
  proof (cases "pending w i")
    case None
    with assms(2,3) Respond show ?thesis by (simp add: respond_def)
  next
    case (Some k)
    show ?thesis
    proof (cases k)
      case Gather
      with Some Respond assms(2) have s: "step w a = gather_then r ?v"
        by (simp add: respond_def)
      with assms(2,3) have "timeout (gather_then r ?v) = 2000" "timeout ?v \<noteq> 2000" by simp_all
      from gather_then_reset [OF v this] s Respond Some Gather show ?thesis by simp
    next
      case Relay
      with Some Respond assms(2,3) show ?thesis
        by (simp add: respond_def relay_then_timeout)
    next
      case Push
      with Some Respond assms(2) have s: "step w a = push_then r ?v"
        by (simp add: respond_def)
      with assms(2,3) have "timeout (push_then r ?v) \<noteq> timeout ?v" by simp
      from push_then_reset [OF v this] s Respond Some Push show ?thesis by simp
    qed
  qed
qed (use assms(2,3) in \<open>auto simp: gather_def fetch_def send_def addEventListener_def Let_def
       removeEventListener_def split: option.splits if_splits\<close>)

lemma poll_lowers:
  assumes "consistent w" and "batch r \<noteq> None \<or> rejected r" and "timeout (poll r w) < timeout w"
  shows "readyState w = CLOSED \<and> readyState (poll r w) = OPEN \<and> timeout (poll r w) = 2000"
proof (cases "rejected r")
  case True
  from assms(1) have "timeout w \<le> 5000" by (simp add: consistent_def)
  then have "timeout w \<le> min (timeout w * 2) 5000" by simp
  with True assms(3) show ?thesis
    by (simp add: poll_rejected_fields)
next
  case False
  with assms(2) obtain ms where ms: "batch r = Some ms" by auto
  from assms(1,3) show ?thesis
    by (auto simp: poll_batch_timeout [OF ms] poll_batch_readyState [OF ms] consistent_def
        split: if_splits)
qed

lemma poll_unregistered:
  assumes "events w ''open'' = None" and "readyState w \<noteq> OPEN"
  shows "poll r w = gather_catch (issued w)"
proof (cases "json_of r")
  case (Inl e)
  then show ?thesis by (simp add: poll_eq gather_then_def)
next
  case (Inr d)
  have "execute m (issued w) = (Some TypeError, issued w)" for m
    using assms by (simp add: execute_def execute_open_cases issued_def)
  with Inr show ?thesis
    by (simp add: poll_eq gather_then_def split: sum.splits)
qed

lemma polls_unregistered:
  "events w ''open'' = None \<Longrightarrow> readyState w \<noteq> OPEN \<Longrightarrow>
   readyState (polls rs w) \<noteq> OPEN \<and> calls (polls rs w) = calls w"
proof (induction rs arbitrary: w)
  case Nil
  then show ?case by (simp add: polls_def)
next
  case (Cons r rs)
  have step: "polls (r # rs) w = polls rs (poll r w)"
    by (simp add: polls_def)
  have p: "poll r w = gather_catch (issued w)"
    using Cons.prems by (rule poll_unregistered)
  have "events (poll r w) ''open'' = None" "readyState (poll r w) \<noteq> OPEN"
       "calls (poll r w) = calls w"
    using Cons.prems by (simp_all add: p gather_catch_eq issued_def)
  with Cons.IH [of "poll r w"] show ?case
    unfolding step by simp
qed

lemma registered_refl: "registered w w"
  by (simp add: registered_def)

lemma registered_trans: "registered w v \<Longrightarrow> registered v u \<Longrightarrow> registered w u"
  by (auto simp: registered_def handlers_def)

lemma registered_same:
  "events v = events w \<Longrightarrow> calls v = calls w \<Longrightarrow> registered w v"
  by (simp add: registered_def)

lemma registered_gather_catch: "registered w (gather_catch w)"
  by (auto simp: registered_def gather_catch_eq)

lemma registered_execute: "execute m w = (e, w') \<Longrightarrow> registered w w'"
  by (auto simp: registered_def execute_def Let_def execute_open_cases handlers_def
      split: sum.splits option.splits json.splits if_splits)

lemma registered_deliver: "deliver d w = (e, w') \<Longrightarrow> registered w w'"
  by (auto simp: registered_def deliver_def forEach_def handlers_def split: option.splits)

lemma registered_reject: "registered w v \<Longrightarrow> registered w (reject e v)"
  by (simp add: registered_def reject_def)

lemma registered_gather_then: "registered w (gather_then r w)"
proof (cases "json_of r")
  case (Inl e)
  then show ?thesis by (simp add: gather_then_def registered_gather_catch)
next
  case (Inr d)
  show ?thesis
  proof (cases "property d ''messages''")
    case (Inl e)
    with Inr show ?thesis by (simp add: gather_then_def registered_gather_catch)
  next
    case (Inr m)
    obtain e w' where x: "execute m w = (e, w')" by (cases "execute m w")
    have "registered w w'" by (rule registered_execute [OF x])
    moreover from this have "registered w (gather_catch w')"
      by (rule registered_trans) (rule registered_gather_catch)
    ultimately show ?thesis
      using x Inr \<open>json_of r = Inr d\<close> by (simp add: gather_then_def split: option.splits)
  qed
qed

lemma registered_relay_then: "registered w (relay_then r w)"
  by (auto simp: relay_then_def registered_reject registered_refl
      split: sum.splits prod.splits option.splits
      intro: registered_reject dest: registered_deliver)

lemma registered_push_then: "registered w (push_then r w)"
proof -
  have d: "registered w (case deliver d v of (None, w2) \<Rightarrow> w2 | (Some e, w2) \<Rightarrow> reject e w2)"
    if "registered w v" for d v
  proof -
    obtain e w2 where x: "deliver d v = (e, w2)" by (cases "deliver d v")
    from registered_trans [OF that registered_deliver [OF x]] x show ?thesis
      by (simp add: registered_reject split: option.splits)
  qed
  show ?thesis
  proof (cases "json_of r")
    case (Inl e)
    then show ?thesis by (simp add: push_then_def registered_reject registered_refl)
  next
    case (Inr j)
    show ?thesis
    proof (cases "property j ''messages''")
      case (Inl e)
      with \<open>json_of r = Inr j\<close> show ?thesis
        by (simp add: push_then_def registered_reject registered_refl)
    next
      case (Inr m)
      note m = this
      show ?thesis
      proof (cases "property j ''type''")
        case (Inl e)
        with m \<open>json_of r = Inr j\<close> show ?thesis
          by (simp add: push_then_def registered_reject registered_refl)
      next
        case (Inr t)
        obtain e w1 where x: "(if truthy m then execute m w else (None, w)) = (e, w1)"
          by (cases "if truthy m then execute m w else (None, w)")
        then have w1: "registered w w1"
          by (auto simp: registered_refl split: if_splits dest: registered_execute)
        from w1 d [OF w1, of j] x Inr m \<open>json_of r = Inr j\<close> show ?thesis
          by (simp add: push_then_def registered_reject split: option.splits)
      qed
    qed
  qed
qed

lemma registered_respond: "registered w (respond i r w)"
proof (cases "pending w i")
  case None
  then show ?thesis by (simp add: respond_def registered_refl)
next
  case (Some k)
  let ?v = "w\<lparr>pending := (pending w)(i := None)\<rparr>"
  have v: "registered w ?v" by (simp add: registered_same)
  have "registered ?v (respond i r w)"
    using Some
    by (cases k) (simp_all add: respond_def registered_gather_then registered_relay_then
        registered_push_then)
  with v show ?thesis by (rule registered_trans)
qed

lemma removed_handler: "h \<notin> set (handlers (snd (removeEventListener k h w)) k)"
  by (simp add: removeEventListener_def handlers_def set_delete_def split: option.splits)

lemma fold_relay_pending:
  "pending (fold relay ms v) j =
     (if length (requests v) \<le> j \<and> j < length (requests v) + length ms then Some Relay
      else pending v j)"
  by (induction ms arbitrary: v) (auto simp: relay_def fetch_def)

lemma poll_batch_pending:
  assumes "batch r = Some ms" and "readyState w = OPEN \<or> events w ''open'' \<noteq> None"
    and "Suc (length (requests w)) \<le> j" and "j < Suc (length (requests w)) + length ms"
  shows "pending (poll r w) j = Some Relay"
  using assms
  by (auto simp: poll_eq gather_then_batch execute_open_cases issued_def fold_relay_pending
      split: option.splits)

lemma respond_relay_calls:
  "pending v i = Some Relay \<Longrightarrow>
   calls (respond i (Response s (Json d)) v) =
     calls v @ map (\<lambda>h. Call ''message'' h (MessageEvent (JSON_stringify d))) (handlers v ''message'')"
  by (simp add: respond_def relay_then_def deliver_def forEach_def reject_def handlers_def
      split: option.splits)

lemma respond_relay_failed:
  "pending v i = Some Relay \<Longrightarrow> json_of r = Inl e \<Longrightarrow> calls (respond i r v) = calls v"
  by (simp add: respond_def relay_then_def reject_def)

lemma respond_relay_pending:
  "pending v i = Some Relay \<Longrightarrow> pending (respond i r v) = (pending v)(i := None)"
  by (auto simp: respond_def Let_def relay_then_def deliver_def forEach_def reject_def
      split: option.splits sum.splits)

lemma respond_events: "events (respond i r v) = events v"
  using registered_respond [of v i r] by (simp add: registered_def)

lemma complete_calls:
  "\<forall>j. i \<le> j \<and> j < i + length ds \<longrightarrow> pending v j = Some Relay \<Longrightarrow>
   calls (complete i ds v) =
     calls v @ concat (map (\<lambda>d. map (\<lambda>h. Call ''message'' h (MessageEvent (JSON_stringify d)))
                                  (handlers v ''message'')) ds)"
proof (induction ds arbitrary: i v)
  case Nil
  then show ?case by simp
next
  case (Cons d ds)
  let ?v = "respond i (Response 200 (Json d)) v"
  from Cons.prems have i: "pending v i = Some Relay" by simp
  have "\<forall>j. Suc i \<le> j \<and> j < Suc i + length ds \<longrightarrow> pending ?v j = Some Relay"
    using Cons.prems by (simp add: respond_relay_pending [OF i])
  from Cons.IH [OF this] show ?case
    by (simp add: respond_relay_calls [OF i] handlers_def respond_events)
qed

lemma removeEventListener_registered_kind:
  "events w k = Some hs \<Longrightarrow>
   fst (removeEventListener k h w) = None \<and>
   events (snd (removeEventListener k h w)) = (events w)(k \<mapsto> removeAll h hs) \<and>
   (h \<notin> set hs \<longrightarrow> events (snd (removeEventListener k h w)) = events w)"
  by (auto simp: removeEventListener_def set_delete_def)

lemma step_calls:
  "\<exists>cs. calls (step v a) = calls v @ cs \<and> (\<forall>c\<in>set cs. target c \<in> set (handlers v (kind c)))"
proof (cases a)
  case (Respond i r)
  from registered_respond [of v i r] Respond show ?thesis
    by (simp add: registered_def)
qed (simp_all add: gather_def fetch_def send_def addEventListener_def Let_def
       removeEventListener_def split: option.splits)

lemma step_handlers:
  assumes "h \<notin> set (handlers v k)" and "a \<noteq> AddEventListener k h"
  shows "h \<notin> set (handlers (step v a) k)"
proof (cases a)
  case (Respond i r)
  then show ?thesis
    using assms(1) by (simp add: handlers_def respond_events)
next
  case (AddEventListener k' h')
  with assms show ?thesis
    by (auto simp: handlers_def addEventListener_def Let_def set_add_def split: option.splits if_splits)
next
  case (RemoveEventListener k' h')
  with assms show ?thesis
    by (auto simp: handlers_def removeEventListener_def set_delete_def split: option.splits if_splits)
qed (use assms(1) in \<open>simp_all add: handlers_def gather_def fetch_def send_def\<close>)

lemma run_without_handler:
  "h \<notin> set (handlers v k) \<Longrightarrow> AddEventListener k h \<notin> set as \<Longrightarrow>
   \<exists>cs. calls (run v as) = calls v @ cs \<and> (\<forall>c\<in>set cs. \<not> (kind c = k \<and> target c = h))"
proof (induction as arbitrary: v)
  case Nil
  then show ?case by (simp add: run_def)
next
  case (Cons a as)
  from Cons.prems have a: "a \<noteq> AddEventListener k h" and as: "AddEventListener k h \<notin> set as"
    by auto
  have run: "run v (a # as) = run (step v a) as"
    by (simp add: run_def)
  from step_calls [of v a] obtain cs where
    cs: "calls (step v a) = calls v @ cs" "\<forall>c\<in>set cs. target c \<in> set (handlers v (kind c))"
    by blast
  from Cons.IH [OF step_handlers [OF Cons.prems(1) a] as] obtain ds where
    ds: "calls (run (step v a) as) = calls (step v a) @ ds"
        "\<forall>c\<in>set ds. \<not> (kind c = k \<and> target c = h)"
    by blast
  from cs(2) Cons.prems(1) have "\<forall>c\<in>set cs. \<not> (kind c = k \<and> target c = h)"
    by auto
  with cs(1) ds show ?case
    unfolding run by auto
qed

subsection \<open>When the retry interval changes\<close>

text \<open>C7, as amended. In a reachable state: \<open>execute\<close> changes the retry interval only
  when it takes the channel from \<open>CLOSED\<close> or \<open>CONNECTING\<close> to \<open>OPEN\<close>, and then sets it to
  the base value 2000; whatever happens to the channel, the interval becomes 2000 from
  another value only when a poll or a request of \<open>send\<close> completes and takes the channel
  from \<open>CLOSED\<close> to \<open>OPEN\<close>; a poll that fails before \<open>execute\<close> (no response, or a body
  that is not JSON or is \<open>null\<close>) doubles the interval up to 5000 and never lowers it; a
  poll that delivers a batch or fails in that way lowers the interval only by such a
  reset, ending \<open>OPEN\<close> at 2000; and after a poll that delivers a batch to a channel that
  is \<open>OPEN\<close> or has an entry for \<open>open\<close>, the channel is \<open>OPEN\<close> and the retry interval and
  the delay of the live timer are 2000, also when the channel was \<open>OPEN\<close> before and
  \<open>execute\<close> reset nothing.\<close>

theorem retry_interval_reset:
  assumes "reachable w"
  shows "(execute m w = (e, w') \<longrightarrow>
            timeout w' = (if readyState w \<noteq> OPEN \<and> readyState w' = OPEN then 2000 else timeout w)) \<and>
         (timeout (step w a) = 2000 \<and> timeout w \<noteq> 2000 \<longrightarrow>
            (\<exists>i r. a = Respond i r \<and> (pending w i = Some Gather \<or> pending w i = Some Push)) \<and>
            readyState w = CLOSED \<and> readyState (step w a) = OPEN) \<and>
         (rejected f \<longrightarrow> timeout (poll f w) = min (timeout w * 2) 5000 \<and>
                           timeout w \<le> timeout (poll f w)) \<and>
         ((batch r \<noteq> None \<or> rejected r) \<and> timeout (poll r w) < timeout w \<longrightarrow>
            readyState w = CLOSED \<and> readyState (poll r w) = OPEN \<and> timeout (poll r w) = 2000) \<and>
         (batch r \<noteq> None \<and> (readyState w = OPEN \<or> events w ''open'' \<noteq> None) \<longrightarrow>
            readyState (poll r w) = OPEN \<and> timeout (poll r w) = 2000 \<and>
            map snd (timers (poll r w)) = [2000])"
proof -
  from assms have c: "consistent w" by (rule reachable_consistent)
  then have o: "openTimeout w = 2000" and le: "timeout w \<le> 5000"
    by (simp_all add: consistent_def)
  have A: "execute m w = (e, w') \<longrightarrow>
            timeout w' = (if readyState w \<noteq> OPEN \<and> readyState w' = OPEN then 2000 else timeout w)"
    using execute_timeout [of m w e w'] o by simp
  have B: "timeout (step w a) = 2000 \<and> timeout w \<noteq> 2000 \<longrightarrow>
            (\<exists>i r. a = Respond i r \<and> (pending w i = Some Gather \<or> pending w i = Some Push)) \<and>
            readyState w = CLOSED \<and> readyState (step w a) = OPEN"
    using step_reset [OF c] by blast
  have C: "rejected f \<longrightarrow> timeout (poll f w) = min (timeout w * 2) 5000 \<and>
                           timeout w \<le> timeout (poll f w)"
    using le by (simp add: poll_rejected_fields)
  have D: "(batch r \<noteq> None \<or> rejected r) \<and> timeout (poll r w) < timeout w \<longrightarrow>
            readyState w = CLOSED \<and> readyState (poll r w) = OPEN \<and> timeout (poll r w) = 2000"
    using poll_lowers [OF c] by blast
  have E: "readyState (poll r w) = OPEN \<and> timeout (poll r w) = 2000 \<and>
            map snd (timers (poll r w)) = [2000]"
    if "batch r \<noteq> None" and "readyState w = OPEN \<or> events w ''open'' \<noteq> None"
  proof -
    from that obtain ms where ms: "batch r = Some ms" by auto
    have cp: "consistent (poll r w)"
      using assms by (intro reachable_consistent reachable_poll)
    have s: "readyState (poll r w) = OPEN"
      using that(2) by (auto simp: poll_batch_readyState [OF ms])
    have "timeout (poll r w) = 2000"
      using c that(2) by (auto simp: poll_batch_timeout [OF ms] consistent_def)
    with s consistent_delays [OF cp] show ?thesis by simp
  qed
  from A B C D E show ?thesis by blast
qed

theorem retry_interval_reset_witness:
  "reachable (polls [NetworkError, NetworkError] demo) \<and>
   timeout (polls [NetworkError, NetworkError] demo) = 5000 \<and>
   readyState (polls [NetworkError, NetworkError] demo) = CLOSED \<and>
   execute (Some (JArr [])) (polls [NetworkError, NetworkError] demo) =
     (fst (execute (Some (JArr [])) (polls [NetworkError, NetworkError] demo)),
      snd (execute (Some (JArr [])) (polls [NetworkError, NetworkError] demo))) \<and>
   timeout (snd (execute (Some (JArr [])) (polls [NetworkError, NetworkError] demo))) = 2000 \<and>
   timeout (step (polls [NetworkError, NetworkError] demo) (Respond 0 (ok []))) = 2000 \<and>
   pending (polls [NetworkError, NetworkError] demo) 0 = Some Gather \<and>
   readyState (step (polls [NetworkError, NetworkError] demo) (Respond 0 (ok []))) = OPEN \<and>
   rejected NetworkError \<and>
   timeout (poll NetworkError (polls [NetworkError, NetworkError] demo)) = 5000 \<and>
   batch (ok []) \<noteq> None \<and>
   timeout (poll (ok []) (polls [NetworkError, NetworkError] demo)) < 5000 \<and>
   readyState (poll (ok []) (polls [NetworkError, NetworkError] demo)) = OPEN \<and>
   events (polls [NetworkError, NetworkError] demo) ''open'' \<noteq> None \<and>
   timeout (poll (ok []) (polls [NetworkError, NetworkError] demo)) = 2000 \<and>
   timeout (poll (ok []) (poll (ok []) (polls [NetworkError, NetworkError] demo))) = 2000"
proof -
  let ?w = "polls [NetworkError, NetworkError] demo"
  let ?x = "execute (Some (JArr [])) ?w"
  have r: "reachable ?w"
    by (rule reachable_polls [OF reachable_demo])
  have r': "reachable (poll (ok []) ?w)"
    by (rule reachable_poll [OF r])
  have t: "timeout ?w = 5000" and s: "readyState ?w = CLOSED"
    and e: "events ?w ''open'' \<noteq> None"
    and x: "readyState (snd ?x) = OPEN"
    and d: "timeout (step ?w (Respond 0 (ok []))) = 2000"
    and p: "pending ?w 0 = Some Gather"
    and l: "timeout (poll (ok []) ?w) < 5000"
    by (simp_all add: eval_defs)
  have b: "batch (ok []) \<noteq> None"
    by (simp add: ok_def)
  have f: "rejected NetworkError"
    by simp
  have px: "?x = (fst ?x, snd ?x)"
    by simp
  note T = retry_interval_reset [OF r, of "Some (JArr [])" "fst ?x" "snd ?x"
      "Respond 0 (ok [])" NetworkError "ok []"]
  note T' = retry_interval_reset [OF r', of _ _ _ _ _ "ok []"]
  from T have "?x = (fst ?x, snd ?x) \<longrightarrow>
      timeout (snd ?x) = (if readyState ?w \<noteq> OPEN \<and> readyState (snd ?x) = OPEN then 2000
                          else timeout ?w)"
    by (rule conjunct1)
  with px x s have A: "timeout (snd ?x) = 2000"
    by simp
  from T have "timeout (step ?w (Respond 0 (ok []))) = 2000 \<and> timeout ?w \<noteq> 2000 \<longrightarrow>
      (\<exists>i r. Respond 0 (ok []) = Respond i r \<and>
             (pending ?w i = Some Gather \<or> pending ?w i = Some Push)) \<and>
      readyState ?w = CLOSED \<and> readyState (step ?w (Respond 0 (ok []))) = OPEN"
    by (rule conjunct2 [THEN conjunct1])
  with d t have B: "readyState (step ?w (Respond 0 (ok []))) = OPEN"
    by simp
  from T have "rejected NetworkError \<longrightarrow>
      timeout (poll NetworkError ?w) = min (timeout ?w * 2) 5000 \<and>
      timeout ?w \<le> timeout (poll NetworkError ?w)"
    by (rule conjunct2 [THEN conjunct2, THEN conjunct1])
  with f t have C: "timeout (poll NetworkError ?w) = 5000"
    by simp
  from T have "(batch (ok []) \<noteq> None \<or> rejected (ok [])) \<and> timeout (poll (ok []) ?w) < timeout ?w \<longrightarrow>
      readyState ?w = CLOSED \<and> readyState (poll (ok []) ?w) = OPEN \<and>
      timeout (poll (ok []) ?w) = 2000"
    by (rule conjunct2 [THEN conjunct2, THEN conjunct2, THEN conjunct1])
  with b l t have D: "readyState (poll (ok []) ?w) = OPEN" "timeout (poll (ok []) ?w) = 2000"
    by simp_all
  from T' have "batch (ok []) \<noteq> None \<and>
      (readyState (poll (ok []) ?w) = OPEN \<or> events (poll (ok []) ?w) ''open'' \<noteq> None) \<longrightarrow>
      readyState (poll (ok []) (poll (ok []) ?w)) = OPEN \<and>
      timeout (poll (ok []) (poll (ok []) ?w)) = 2000 \<and>
      map snd (timers (poll (ok []) (poll (ok []) ?w))) = [2000]"
    by (rule conjunct2 [THEN conjunct2, THEN conjunct2, THEN conjunct2])
  with b D(1) have E: "timeout (poll (ok []) (poll (ok []) ?w)) = 2000"
    by simp
  from r t s px A d p B f C b l D e E show ?thesis
    by (intro conjI)
qed

text \<open>The claim as stated fails in three ways. On a \<open>CLOSED\<close> channel at 5000, a poll
  answered with status 500 and a JSON object lowers the interval to 4000 and leaves the
  channel \<open>CLOSED\<close>: the interval falls on a failure. On the same channel, the reply to a
  \<open>send\<close> that carries a batch resets the interval to 2000 without any poll. And on a
  channel without an entry for \<open>open\<close>, a poll answered with a well-formed batch
  schedules 4000, not the base value.\<close>

theorem retry_interval_reset_counterexample:
  "timeout (polls [NetworkError, NetworkError] demo) = 5000 \<and>
   readyState (polls [NetworkError, NetworkError] demo) = CLOSED \<and>
   timeout (poll server_error (polls [NetworkError, NetworkError] demo)) = 4000 \<and>
   readyState (poll server_error (polls [NetworkError, NetworkError] demo)) = CLOSED \<and>
   pending (send ''update'' (polls [NetworkError, NetworkError] demo)) 3 = Some Push \<and>
   timeout (respond 3 (ok []) (send ''update'' (polls [NetworkError, NetworkError] demo))) = 2000 \<and>
   events (addEventListener ''message'' 3 (new_HTTPSSocket ''u'')) ''open'' = None \<and>
   timeout (addEventListener ''message'' 3 (new_HTTPSSocket ''u'')) = 2000 \<and>
   timeout (poll (ok []) (addEventListener ''message'' 3 (new_HTTPSSocket ''u''))) = 4000"
  by (simp add: eval_defs server_error_def)

subsection \<open>A channel without an entry for \<open>open\<close>\<close>

text \<open>C10. On a channel whose handler table has no entry \<open>open\<close> and which is \<open>CLOSED\<close> or
  \<open>CONNECTING\<close>, a poll that is answered with any status and any JSON body is processed by
  the failure branch: the channel is \<open>CLOSED\<close> afterwards, the retry interval is doubled up
  to 5000, no handler is called, no request is issued for a message of the batch, and
  the exception is not left unhandled. However many polls follow, with whatever
  responses, the channel does not become \<open>OPEN\<close> and no handler is called.\<close>

theorem unregistered_open_fails:
  assumes "events w ''open'' = None" and "readyState w \<in> {CLOSED, CONNECTING}"
  shows "readyState (poll (Response s (Json d)) w) = CLOSED \<and>
         timeout (poll (Response s (Json d)) w) = min (timeout w * 2) 5000 \<and>
         new_calls w (poll (Response s (Json d)) w) = [] \<and>
         new_requests w (poll (Response s (Json d)) w) = [Request ''get'' (location w) None Gather] \<and>
         unhandled (poll (Response s (Json d)) w) = unhandled w \<and>
         readyState (polls rs w) \<noteq> OPEN \<and> new_calls w (polls rs w) = []"
proof -
  from assms(2) have n: "readyState w \<noteq> OPEN" by auto
  note p = poll_unregistered [OF assms(1) n]
  from polls_unregistered [OF assms(1) n, of rs] n show ?thesis
    by (simp add: p gather_catch_eq issued_def new_calls_def new_requests_def)
qed

theorem unregistered_open_fails_witness:
  "events (addEventListener ''message'' 3 (new_HTTPSSocket ''u'')) ''open'' = None \<and>
   readyState (addEventListener ''message'' 3 (new_HTTPSSocket ''u'')) = CONNECTING \<and>
   readyState (poll (ok [JNum 1]) (addEventListener ''message'' 3 (new_HTTPSSocket ''u''))) = CLOSED \<and>
   timeout (poll (ok [JNum 1]) (addEventListener ''message'' 3 (new_HTTPSSocket ''u''))) = 4000 \<and>
   new_requests (addEventListener ''message'' 3 (new_HTTPSSocket ''u''))
     (poll (ok [JNum 1]) (addEventListener ''message'' 3 (new_HTTPSSocket ''u'')))
     = [Request ''get'' ''u'' None Gather] \<and>
   readyState (polls [ok [], ok []] (addEventListener ''message'' 3 (new_HTTPSSocket ''u''))) \<noteq> OPEN"
proof -
  let ?w = "addEventListener ''message'' 3 (new_HTTPSSocket ''u'')"
  have e: "events ?w ''open'' = None" and s: "readyState ?w \<in> {CLOSED, CONNECTING}"
    and t: "timeout ?w = 2000" and l: "location ?w = ''u''"
    by (simp_all add: eval_defs)
  have c: "readyState ?w = CONNECTING"
    by (simp add: eval_defs)
  from unregistered_open_fails [OF e s, of 200 "JObj [(''messages'', JArr [JNum 1])]" "[ok [], ok []]"]
    e c t l
  show ?thesis by (simp add: ok_def)
qed

subsection \<open>Removing a handler while a request is in flight\<close>

text \<open>C9. After \<open>gather\<close> has issued a poll and \<open>removeEventListener k h\<close> has been called,
  whatever happens next to the channel (timers firing, requests completing with whatever
  response, among them the poll and the requests its batch gives rise to, calls of \<open>send\<close>,
  other handlers added or removed), as long as \<open>h\<close> is not added under \<open>k\<close> again, no call
  is made to \<open>h\<close> for the kind \<open>k\<close>: the handler sets are read when a response is
  processed, not when its request is issued.\<close>

theorem removed_handler_not_invoked:
  assumes "AddEventListener k h \<notin> set as"
  shows "\<forall>c\<in>set (new_calls (snd (removeEventListener k h (gather w)))
                       (run (snd (removeEventListener k h (gather w))) as)).
           \<not> (kind c = k \<and> target c = h)"
proof -
  let ?v = "snd (removeEventListener k h (gather w))"
  from run_without_handler [OF removed_handler assms, of "gather w"] obtain cs where
    cs: "calls (run ?v as) = calls ?v @ cs" "\<forall>c\<in>set cs. \<not> (kind c = k \<and> target c = h)"
    by blast
  from cs(1) have "new_calls ?v (run ?v as) = cs"
    by (simp add: new_calls_def)
  with cs(2) show ?thesis by simp
qed

theorem removed_handler_not_invoked_witness:
  "AddEventListener ''message'' 3 \<notin>
     set [Respond 1 (ok [JNum 1]), Respond 2 (Response 200 (Json (JStr ''a'')))] \<and>
   new_calls (gather (addEventListener ''message'' 5 demo))
     (run (gather (addEventListener ''message'' 5 demo))
        [Respond 1 (ok [JNum 1]), Respond 2 (Response 200 (Json (JStr ''a'')))])
     = [Call ''open'' 1 Null,
        Call ''message'' 3 (MessageEvent (JSON_stringify (JStr ''a''))),
        Call ''message'' 5 (MessageEvent (JSON_stringify (JStr ''a'')))] \<and>
   new_calls (snd (removeEventListener ''message'' 3 (gather (addEventListener ''message'' 5 demo))))
     (run (snd (removeEventListener ''message'' 3 (gather (addEventListener ''message'' 5 demo))))
        [Respond 1 (ok [JNum 1]), Respond 2 (Response 200 (Json (JStr ''a'')))])
     = [Call ''open'' 1 Null,
        Call ''message'' 5 (MessageEvent (JSON_stringify (JStr ''a'')))] \<and>
   Call ''message'' 3 (MessageEvent (JSON_stringify (JStr ''a''))) \<notin>
     set (new_calls (snd (removeEventListener ''message'' 3 (gather (addEventListener ''message'' 5 demo))))
       (run (snd (removeEventListener ''message'' 3 (gather (addEventListener ''message'' 5 demo))))
          [Respond 1 (ok [JNum 1]), Respond 2 (Response 200 (Json (JStr ''a'')))]))"
proof -
  have a: "AddEventListener ''message'' 3 \<notin>
     set [Respond 1 (ok [JNum 1]), Respond 2 (Response 200 (Json (JStr ''a'')))]"
    by simp
  have "new_calls (gather (addEventListener ''message'' 5 demo))
     (run (gather (addEventListener ''message'' 5 demo))
        [Respond 1 (ok [JNum 1]), Respond 2 (Response 200 (Json (JStr ''a'')))])
     = [Call ''open'' 1 Null,
        Call ''message'' 3 (MessageEvent (JSON_stringify (JStr ''a''))),
        Call ''message'' 5 (MessageEvent (JSON_stringify (JStr ''a'')))]"
    by (simp add: eval_defs)
  moreover have "new_calls (snd (removeEventListener ''message'' 3 (gather (addEventListener ''message'' 5 demo))))
     (run (snd (removeEventListener ''message'' 3 (gather (addEventListener ''message'' 5 demo))))
        [Respond 1 (ok [JNum 1]), Respond 2 (Response 200 (Json (JStr ''a'')))])
     = [Call ''open'' 1 Null,
        Call ''message'' 5 (MessageEvent (JSON_stringify (JStr ''a'')))]"
    by (simp add: eval_defs)
  ultimately show ?thesis
    using a removed_handler_not_invoked [OF a, of "addEventListener ''message'' 5 demo"]
    by force
qed

subsection \<open>Messages\<close>

text \<open>C4, as amended. A poll that delivers a batch of \<open>N\<close> messages, on a channel that is
  \<open>OPEN\<close> or has an entry for \<open>open\<close>, delivers no \<open>message\<close> event itself: it issues exactly
  \<open>N\<close> requests, in the order of the batch, each a \<open>post\<close> to the location followed by
  \<open>&mode=pull\<close> with \<open>JSON.stringify\<close> of one message as body. When one of these requests
  completes with a JSON body, every handler registered under \<open>message\<close> at that moment is
  called once with \<open>{ data: JSON.stringify(body) }\<close>; when it completes without one, no
  handler is called. If the \<open>N\<close> requests complete in the order they were issued, each with
  a JSON body, the calls are those of the \<open>N\<close> bodies in that order.\<close>

theorem relayed_messages:
  assumes "batch r = Some ms" and "readyState w = OPEN \<or> events w ''open'' \<noteq> None"
  shows "new_requests w (poll r w) =
           Request ''get'' (location w) None Gather #
           map (\<lambda>m. Request ''post'' (location w @ ''&mode=pull'') (Some (JSON_stringify m)) Relay) ms \<and>
         (\<forall>c\<in>set (new_calls w (poll r w)). kind c = ''open'') \<and>
         (pending v i = Some Relay \<longrightarrow>
            new_calls v (respond i (Response s (Json d)) v) =
              map (\<lambda>h. Call ''message'' h (MessageEvent (JSON_stringify d))) (handlers v ''message'') \<and>
            new_calls v (respond i NetworkError v) = [] \<and>
            new_calls v (respond i (Response s Invalid) v) = []) \<and>
         (length ds = length ms \<longrightarrow>
            new_calls (poll r w) (complete (Suc (length (requests w))) ds (poll r w)) =
              concat (map (\<lambda>d. map (\<lambda>h. Call ''message'' h (MessageEvent (JSON_stringify d)))
                                   (handlers w ''message'')) ds))"
proof -
  have A: "new_requests w (poll r w) =
           Request ''get'' (location w) None Gather #
           map (\<lambda>m. Request ''post'' (location w @ ''&mode=pull'') (Some (JSON_stringify m)) Relay) ms"
    using assms(2) by (auto simp: new_requests_def poll_batch_requests [OF assms(1)])
  have B: "\<forall>c\<in>set (new_calls w (poll r w)). kind c = ''open''"
    by (auto simp: new_calls_def poll_batch_calls [OF assms(1)])
  have C: "new_calls v (respond i (Response s (Json d)) v) =
              map (\<lambda>h. Call ''message'' h (MessageEvent (JSON_stringify d))) (handlers v ''message'') \<and>
            new_calls v (respond i NetworkError v) = [] \<and>
            new_calls v (respond i (Response s Invalid) v) = []"
    if "pending v i = Some Relay"
    using that by (simp add: new_calls_def respond_relay_calls respond_relay_failed)
  have D: "new_calls (poll r w) (complete (Suc (length (requests w))) ds (poll r w)) =
              concat (map (\<lambda>d. map (\<lambda>h. Call ''message'' h (MessageEvent (JSON_stringify d)))
                                   (handlers w ''message'')) ds)"
    if "length ds = length ms"
  proof -
    have "\<forall>j. Suc (length (requests w)) \<le> j \<and> j < Suc (length (requests w)) + length ds \<longrightarrow>
            pending (poll r w) j = Some Relay"
      using poll_batch_pending [OF assms] that by simp
    from complete_calls [OF this] show ?thesis
      by (simp add: new_calls_def)
  qed
  from A B C D show ?thesis by blast
qed

theorem relayed_messages_witness:
  "batch (ok [JNum 1, JNum 2]) = Some [JNum 1, JNum 2] \<and>
   events demo ''open'' \<noteq> None \<and>
   length [JStr ''a'', JStr ''b''] = length [JNum 1, JNum 2] \<and>
   new_requests demo (poll (ok [JNum 1, JNum 2]) demo) =
     [Request ''get'' ''http://host/polling?sessionId=s'' None Gather,
      Request ''post'' ''http://host/polling?sessionId=s&mode=pull'' (Some (JSON_stringify (JNum 1))) Relay,
      Request ''post'' ''http://host/polling?sessionId=s&mode=pull'' (Some (JSON_stringify (JNum 2))) Relay] \<and>
   new_calls (poll (ok [JNum 1, JNum 2]) demo)
     (complete (Suc (length (requests demo))) [JStr ''a'', JStr ''b''] (poll (ok [JNum 1, JNum 2]) demo))
     = [Call ''message'' 3 (MessageEvent (JSON_stringify (JStr ''a''))),
        Call ''message'' 3 (MessageEvent (JSON_stringify (JStr ''b'')))]"
proof -
  have b: "batch (ok [JNum 1, JNum 2]) = Some [JNum 1, JNum 2]"
    by (simp add: ok_def)
  have e: "readyState demo = OPEN \<or> events demo ''open'' \<noteq> None"
    by (simp add: eval_defs)
  have h: "handlers demo ''message'' = [3]"
    and l: "location demo = ''http://host/polling?sessionId=s''"
    and o: "events demo ''open'' \<noteq> None"
    by (simp_all add: eval_defs)
  from relayed_messages [OF b e, of _ _ _ _ "[JStr ''a'', JStr ''b'']"] b o h l
  show ?thesis by simp
qed

text \<open>The claim as stated fails: a batch of two messages is polled; when the second
  request completes before the first, the two events arrive in the opposite order, and
  when the first request gets no response, only one event is delivered. The events carry
  the bodies of the responses to the requests, not the messages of the batch.\<close>

theorem relayed_messages_counterexample:
  "new_calls demo (poll (ok [JNum 1, JNum 2]) demo) = [Call ''open'' 1 Null] \<and>
   new_calls (poll (ok [JNum 1, JNum 2]) demo)
     (respond 2 (Response 200 (Json (JStr ''a'')))
        (respond 3 (Response 200 (Json (JStr ''b''))) (poll (ok [JNum 1, JNum 2]) demo)))
     = [Call ''message'' 3 (MessageEvent (JSON_stringify (JStr ''b''))),
        Call ''message'' 3 (MessageEvent (JSON_stringify (JStr ''a'')))] \<and>
   new_calls (poll (ok [JNum 1, JNum 2]) demo)
     (respond 3 (Response 200 (Json (JStr ''b'')))
        (respond 2 NetworkError (poll (ok [JNum 1, JNum 2]) demo)))
     = [Call ''message'' 3 (MessageEvent (JSON_stringify (JStr ''b'')))]"
  by (simp add: eval_defs)

subsection \<open>Failures of the transport\<close>

text \<open>C5, as amended. No poll, whatever its response, leaves a rejection unhandled. When
  no response arrives, or the body is not JSON, the \<open>.catch\<close> of \<open>gather\<close> turns the failure
  into the \<open>close\<close> calls (when the channel was \<open>OPEN\<close>), the state \<open>CLOSED\<close> and a timer
  re-armed with the doubled interval. \<open>send\<close> itself only issues its request: it calls no
  handler, leaves no rejection and changes neither state nor timers.\<close>

theorem poll_failure_absorbed:
  assumes "reachable w" and "rejected r"
  shows "unhandled (poll r' w) = unhandled w \<and>
         readyState (poll r w) = CLOSED \<and>
         new_calls w (poll r w) =
           (if readyState w = OPEN
            then map (\<lambda>h. Call ''close'' h Null) (handlers w ''close'') else []) \<and>
         timeout (poll r w) = min (timeout w * 2) 5000 \<and>
         map snd (timers (poll r w)) = [min (timeout w * 2) 5000] \<and>
         requests (send m w) =
           requests w @ [Request ''post'' (location w @ ''&mode=push'') (Some (Raw m)) Push] \<and>
         calls (send m w) = calls w \<and> unhandled (send m w) = unhandled w \<and>
         readyState (send m w) = readyState w \<and> timeout (send m w) = timeout w \<and>
         timers (send m w) = timers w \<and> events (send m w) = events w"
proof -
  have cp: "consistent (poll r w)"
    using assms(1) by (intro reachable_consistent reachable_poll)
  from consistent_delays [OF cp] show ?thesis
    using assms(2)
    by (simp add: poll_rejected_fields poll_rejected_calls new_calls_def send_def fetch_def)
qed

theorem poll_failure_absorbed_witness:
  "reachable (poll (ok []) demo) \<and> rejected NetworkError \<and>
   unhandled (poll NetworkError (poll (ok []) demo)) = [] \<and>
   readyState (poll NetworkError (poll (ok []) demo)) = CLOSED \<and>
   new_calls (poll (ok []) demo) (poll NetworkError (poll (ok []) demo)) = [Call ''close'' 2 Null] \<and>
   map snd (timers (poll NetworkError (poll (ok []) demo))) = [4000]"
proof -
  have r: "reachable (poll (ok []) demo)"
    by (rule reachable_poll [OF reachable_demo])
  have f: "rejected NetworkError" by simp
  have s: "readyState (poll (ok []) demo) = OPEN" "timeout (poll (ok []) demo) = 2000"
          "unhandled (poll (ok []) demo) = []"
          "handlers (poll (ok []) demo) ''close'' = [2]"
    by (simp_all add: eval_defs)
  from poll_failure_absorbed [OF r f] r s show ?thesis by simp
qed

text \<open>The claim as stated also covers \<open>send\<close>. The chain of \<open>send\<close> has no \<open>.catch\<close>: when
  its request gets no response on an \<open>OPEN\<close> channel with a \<open>close\<close> handler, no handler is
  called, the channel stays \<open>OPEN\<close>, the timer and the retry interval stay as they were,
  and the rejection is left unhandled.\<close>

theorem send_failure_counterexample:
  "pending (send ''update'' (poll (ok []) demo)) 2 = Some Push \<and>
   readyState (poll (ok []) demo) = OPEN \<and>
   handlers (poll (ok []) demo) ''close'' = [2] \<and>
   new_calls (poll (ok []) demo)
     (respond 2 NetworkError (send ''update'' (poll (ok []) demo))) = [] \<and>
   readyState (respond 2 NetworkError (send ''update'' (poll (ok []) demo))) = OPEN \<and>
   timers (respond 2 NetworkError (send ''update'' (poll (ok []) demo)))
     = timers (poll (ok []) demo) \<and>
   timeout (respond 2 NetworkError (send ''update'' (poll (ok []) demo))) = 2000 \<and>
   unhandled (respond 2 NetworkError (send ''update'' (poll (ok []) demo))) = [TypeError]"
  by (simp add: eval_defs)

subsection \<open>\<open>removeEventListener\<close>\<close>

text \<open>C6. On a channel where nothing was ever registered under \<open>message\<close>,
  \<open>removeEventListener("message", h)\<close> throws a \<open>TypeError\<close> to its caller:
  \<open>this.events[eventType]\<close> is \<open>undefined\<close>. \<open>addEventListener\<close> and the failure branch of
  \<open>gather\<close> both test for the missing entry; \<open>removeEventListener\<close> does not.\<close>

theorem removeEventListener_unregistered_kind:
  "events (new_HTTPSSocket ''http://host/polling?sessionId=s'') ''message'' = None \<and>
   fst (removeEventListener ''message'' 7 (new_HTTPSSocket ''http://host/polling?sessionId=s''))
     = Some TypeError"
  by (simp add: eval_defs)

end
